theory Spec2Isabelle
  imports Main
begin

section \<open>The host editor\<close>

text \<open>
  The scripts of the repository run inside a text editor that injects the global object
  \<open>editor\<close>. The repository holds only the declarations of that object
  (\<open>onewriter.d.ts\<close>), not its implementation, so the host is a small model here.
  The state the scripts can observe or change is the text of the open document and the
  selected range. The third field records, in order, every mutating call a script issues,
  so that statements about how many calls a script makes can be written down.
\<close>

datatype host_call =
    ReplaceTextInRange int int string
  | SetSelectedRange int "int option"

record editor =
  buffer :: string
  selection :: "int \<times> int"
  calls :: "host_call list"

abbreviation newline :: char where
  "newline \<equiv> CHR 0x0A"

text \<open>
  The implementation of the host calls is missing from the repository. The declarations
  give every range as two absolute character positions (\<open>start\<close>: the position of the
  first character, \<open>end\<close>: the position of the last character) and the specification
  reads a range as the half-open interval \<open>[start, end)\<close> of zero-based offsets. No host
  call is declared to fail, so none has an error result.
\<close>

text \<open>
  Modelled from the spec: \<open>Editor.getText\<close>, whose implementation is missing, returns
  the entire text in the editor.
\<close>

definition getText :: "editor \<Rightarrow> string" where
  "getText ed = buffer ed"

text \<open>
  Modelled from the spec: \<open>Editor.getTextInRange\<close>, whose implementation is missing,
  returns the text in the range \<open>[start, end)\<close>: the characters of the buffer whose
  offsets lie in the interval, none when \<open>end \<le> start\<close>; offsets outside the buffer
  contribute nothing.
\<close>

definition getTextInRange :: "int \<Rightarrow> int \<Rightarrow> editor \<Rightarrow> string" where
  "getTextInRange start end ed = take (nat end - nat start) (drop (nat start) (buffer ed))"

text \<open>
  Modelled from the spec: \<open>Editor.replaceTextInRange\<close>, whose implementation is missing,
  replaces the text in the range \<open>[start, end)\<close> with the replacement; an empty range is
  an insertion at \<open>start\<close>. The specification reports that the caret is left at the
  trailing position of the replacement, so the selection afterwards is the caret at the
  offset where the inserted replacement ends.
\<close>

definition replaceTextInRange :: "int \<Rightarrow> int \<Rightarrow> string \<Rightarrow> editor \<Rightarrow> editor" where
  "replaceTextInRange start end replacement ed =
     (let before = take (nat start) (buffer ed);
          caret = int (length before + length replacement)
      in ed\<lparr>buffer := before @ replacement @ drop (max (nat start) (nat end)) (buffer ed),
            selection := (caret, caret),
            calls := calls ed @ [ReplaceTextInRange start end replacement]\<rparr>)"

text \<open>
  Modelled from the spec: \<open>Editor.setSelectedRange\<close>, whose implementation is missing,
  selects the range it is given; with \<open>end\<close> omitted it moves the caret to \<open>start\<close>.
  It changes the selection and nothing else.
\<close>

definition setSelectedRange :: "int \<Rightarrow> int option \<Rightarrow> editor \<Rightarrow> editor" where
  "setSelectedRange start end ed =
     ed\<lparr>selection := (start, case end of None \<Rightarrow> start | Some e \<Rightarrow> e),
        calls := calls ed @ [SetSelectedRange start end]\<rparr>"

section \<open>String search of the script language\<close>

text \<open>
  \<open>String.prototype.lastIndexOf(c, position)\<close> for a one-character search string: the
  position is clamped into the string, then the scan runs downwards; the answer is the
  greatest index not above the position that holds the character, or \<open>-1\<close>.
\<close>

fun lastIndexOf_scan :: "string \<Rightarrow> char \<Rightarrow> nat \<Rightarrow> int" where
  "lastIndexOf_scan s c 0 = (if 0 < length s \<and> s ! 0 = c then 0 else - 1)"
| "lastIndexOf_scan s c (Suc k) =
     (if Suc k < length s \<and> s ! Suc k = c then int (Suc k) else lastIndexOf_scan s c k)"

definition lastIndexOf :: "string \<Rightarrow> char \<Rightarrow> int \<Rightarrow> int" where
  "lastIndexOf s c position = lastIndexOf_scan s c (min (nat position) (length s - 1))"

text \<open>
  \<open>String.prototype.indexOf(c, position)\<close>: the position is clamped into
  \<open>[0, length]\<close>, then the scan runs upwards; the answer is the least index not below
  the position that holds the character, or \<open>-1\<close>.
\<close>

fun indexOf_scan :: "char \<Rightarrow> string \<Rightarrow> nat \<Rightarrow> int" where
  "indexOf_scan c [] k = - 1"
| "indexOf_scan c (x # xs) k = (if x = c then int k else indexOf_scan c xs (Suc k))"

definition indexOf :: "string \<Rightarrow> char \<Rightarrow> int \<Rightarrow> int" where
  "indexOf s c position =
     (let k = min (nat position) (length s) in indexOf_scan c (drop k s) k)"

section \<open>The scripts\<close>

text \<open>
  Each script starts with \<open>editor.getSelectedLineRange()\<close>. The declarations say only
  that the call returns the range of lines that includes the selection, so the pair it
  returns is an argument of the model of each script.
\<close>

definition move_up_current_line :: "int \<times> int \<Rightarrow> editor \<Rightarrow> editor" where
  "move_up_current_line lineRange ed =
     (let (start, end) = lineRange;
          currentLine = getTextInRange start end ed;
          text = getText ed;
          prevEnd = start - 1
      in if prevEnd > 0 then
           let found = lastIndexOf text newline (prevEnd - 1);
               prevStart = (if found = - 1 then 0 else found + 1);
               prevLine = getTextInRange prevStart prevEnd ed;
               ed1 = replaceTextInRange prevStart end (currentLine @ newline # prevLine) ed
           in setSelectedRange prevStart None ed1
         else ed)"

definition move_down_current_line :: "int \<times> int \<Rightarrow> editor \<Rightarrow> editor" where
  "move_down_current_line lineRange ed =
     (let (start, end) = lineRange;
          currentLine = getTextInRange start end ed;
          text = getText ed;
          nextStart = end + 1
      in if nextStart < int (length text) then
           let found = indexOf text newline nextStart;
               nextEnd = (if found = - 1 then int (length text) else found);
               nextLine = getTextInRange nextStart nextEnd ed
           in replaceTextInRange start nextEnd (nextLine @ newline # currentLine) ed
         else ed)"

definition trim_line_selection :: "int \<times> int \<Rightarrow> editor \<Rightarrow> editor" where
  "trim_line_selection lineRange ed =
     (let (start, end) = lineRange;
          eol0 = start + end;
          eol = (if getTextInRange (eol0 - 1) 1 ed = [newline] then eol0 - 1 else eol0)
      in setSelectedRange start (Some (eol - start)) ed)"

section \<open>Names for what the scripts compute\<close>

text \<open>
  The start of the previous line as \<open>Move Up Current Line\<close> computes it (lines 8 to 13
  of the script) and the end of the next line as \<open>Move Down Current Line\<close> computes it
  (lines 8 to 11), as functions of the buffer and of the line range, so that statements
  can name them.
\<close>

definition prevStart_of :: "string \<Rightarrow> int \<Rightarrow> int" where
  "prevStart_of text start =
     (let found = lastIndexOf text newline (start - 1 - 1)
      in if found = - 1 then 0 else found + 1)"

definition nextEnd_of :: "string \<Rightarrow> int \<Rightarrow> int" where
  "nextEnd_of text end =
     (let found = indexOf text newline (end + 1)
      in if found = - 1 then int (length text) else found)"


text \<open>
  \<open>Move Up Current Line\<close> followed by \<open>Move Down Current Line\<close> on the relocated
  line: the line that starts at the caret the first script has set and is as long as the
  line that was moved.
\<close>

definition up_then_down :: "int \<times> int \<Rightarrow> editor \<Rightarrow> editor" where
  "up_then_down lineRange ed =
     (let ed1 = move_up_current_line lineRange ed;
          caret = fst (selection ed1)
      in move_down_current_line (caret, caret + (snd lineRange - fst lineRange)) ed1)"


section \<open>Buffers as lists of lines\<close>

text \<open>
  The specification speaks of the lines of a buffer. A buffer with the lines \<open>ls\<close> is the
  lines joined by single newline characters; line \<open>i\<close> starts after the \<open>i\<close> lines
  before it and their newlines, and its range excludes the newline that ends it.
\<close>

fun join_lines :: "string list \<Rightarrow> string" where
  "join_lines [] = []"
| "join_lines [l] = l"
| "join_lines (l # m # ls) = l @ newline # join_lines (m # ls)"

fun line_start :: "string list \<Rightarrow> nat \<Rightarrow> nat" where
  "line_start [] i = 0"
| "line_start (l # ls) 0 = 0"
| "line_start (l # ls) (Suc i) = length l + 1 + line_start ls i"

definition line_range :: "string list \<Rightarrow> nat \<Rightarrow> int \<times> int" where
  "line_range ls i = (int (line_start ls i), int (line_start ls i + length (ls ! i)))"

definition swap_lines :: "string list \<Rightarrow> nat \<Rightarrow> nat \<Rightarrow> string list" where
  "swap_lines ls i j = ls[i := ls ! j, j := ls ! i]"


section \<open>String search\<close>

lemma lastIndexOf_scan_bounds:
  "- 1 \<le> lastIndexOf_scan s c k \<and> lastIndexOf_scan s c k \<le> int k
     \<and> lastIndexOf_scan s c k < int (length s)"
  by (induction k) auto

lemma lastIndexOf_scan_none:
  "(\<And>j. j \<le> k \<Longrightarrow> j < length s \<Longrightarrow> s ! j \<noteq> c) \<Longrightarrow> lastIndexOf_scan s c k = - 1"
  by (induction k) auto

lemma lastIndexOf_scan_found:
  "m \<le> k \<Longrightarrow> m < length s \<Longrightarrow> s ! m = c
     \<Longrightarrow> (\<And>j. m < j \<Longrightarrow> j \<le> k \<Longrightarrow> j < length s \<Longrightarrow> s ! j \<noteq> c)
     \<Longrightarrow> lastIndexOf_scan s c k = int m"
proof (induction k)
  case 0
  then show ?case by simp
next
  case (Suc k)
  show ?case
  proof (cases "m = Suc k")
    case True
    with Suc.prems show ?thesis by simp
  next
    case False
    with Suc.prems have le: "m \<le> k" by simp
    have "\<not> (Suc k < length s \<and> s ! Suc k = c)"
      using Suc.prems(4)[of "Suc k"] le by auto
    moreover have "lastIndexOf_scan s c k = int m"
      using Suc.IH[OF le Suc.prems(2,3)] Suc.prems(4) by simp
    ultimately show ?thesis by auto
  qed
qed

lemma indexOf_scan_none: "c \<notin> set xs \<Longrightarrow> indexOf_scan c xs k = - 1"
  by (induction xs arbitrary: k) auto

lemma indexOf_scan_found: "c \<notin> set p \<Longrightarrow> indexOf_scan c (p @ c # r) k = int (k + length p)"
  by (induction p arbitrary: k) auto

lemma indexOf_scan_bounds:
  "indexOf_scan c xs k = - 1 \<or> (int k \<le> indexOf_scan c xs k \<and> indexOf_scan c xs k < int (k + length xs))"
proof (induction xs arbitrary: k)
  case Nil
  then show ?case by simp
next
  case (Cons x xs)
  show ?case using Cons.IH[of "Suc k"] by auto
qed

lemma lastIndexOf_bounds:
  "- 1 \<le> lastIndexOf s c p \<and> lastIndexOf s c p \<le> max p 0 \<and> lastIndexOf s c p < int (length s)"
proof -
  let ?k = "min (nat p) (length s - 1)"
  have "int ?k \<le> max p 0" by linarith
  with lastIndexOf_scan_bounds[of s c ?k] show ?thesis
    unfolding lastIndexOf_def by linarith
qed

lemma indexOf_bounds:
  "0 \<le> p \<Longrightarrow> p \<le> int (length s) \<Longrightarrow>
    indexOf s c p = - 1 \<or> (p \<le> indexOf s c p \<and> indexOf s c p < int (length s))"
  using indexOf_scan_bounds[of c "drop (nat p) s" "nat p"]
  by (auto simp: indexOf_def Let_def min_def)

section \<open>The two branches of the line scripts\<close>

lemma move_up_noop: "start - 1 \<le> 0 \<Longrightarrow> move_up_current_line (start, end) ed = ed"
  by (simp add: move_up_current_line_def Let_def)

lemma move_up_swap:
  "0 < start - 1 \<Longrightarrow>
   move_up_current_line (start, end) ed =
     setSelectedRange (prevStart_of (buffer ed) start) None
       (replaceTextInRange (prevStart_of (buffer ed) start) end
          (getTextInRange start end ed @ newline #
             getTextInRange (prevStart_of (buffer ed) start) (start - 1) ed) ed)"
  by (simp add: move_up_current_line_def prevStart_of_def getText_def Let_def)

lemma move_down_noop:
  "int (length (buffer ed)) \<le> end + 1 \<Longrightarrow> move_down_current_line (start, end) ed = ed"
  by (simp add: move_down_current_line_def getText_def Let_def)

lemma move_down_swap:
  "end + 1 < int (length (buffer ed)) \<Longrightarrow>
   move_down_current_line (start, end) ed =
     replaceTextInRange start (nextEnd_of (buffer ed) end)
       (getTextInRange (end + 1) (nextEnd_of (buffer ed) end) ed @ newline #
          getTextInRange start end ed) ed"
  by (simp add: move_down_current_line_def nextEnd_of_def getText_def Let_def)

lemma prevStart_of_bounds:
  "0 < start - 1 \<Longrightarrow> 0 \<le> prevStart_of s start \<and> prevStart_of s start \<le> start - 1
      \<and> prevStart_of s start \<le> int (length s)"
  using lastIndexOf_bounds[of s newline "start - 1 - 1"]
  by (auto simp: prevStart_of_def Let_def)

lemma nextEnd_of_bounds:
  "0 \<le> end \<Longrightarrow> end + 1 < int (length s) \<Longrightarrow>
     end + 1 \<le> nextEnd_of s end \<and> nextEnd_of s end \<le> int (length s)"
  using indexOf_bounds[of "end + 1" s newline]
  by (auto simp: nextEnd_of_def Let_def)

lemma length_getTextInRange:
  "0 \<le> a \<Longrightarrow> a \<le> b \<Longrightarrow> b \<le> int (length (buffer ed)) \<Longrightarrow>
     int (length (getTextInRange a b ed)) = b - a"
  by (auto simp: getTextInRange_def)

lemma buffer_replaceTextInRange:
  "buffer (replaceTextInRange a b r ed) =
     take (nat a) (buffer ed) @ r @ drop (max (nat a) (nat b)) (buffer ed)"
  by (simp add: replaceTextInRange_def Let_def)

lemma calls_replaceTextInRange:
  "calls (replaceTextInRange a b r ed) = calls ed @ [ReplaceTextInRange a b r]"
  by (simp add: replaceTextInRange_def Let_def)

lemma selection_replaceTextInRange:
  "selection (replaceTextInRange a b r ed)
     = (int (length (take (nat a) (buffer ed)) + length r),
        int (length (take (nat a) (buffer ed)) + length r))"
  by (simp add: replaceTextInRange_def Let_def)

text \<open>The caret a replacement leaves is an offset of the buffer it leaves.\<close>

lemma caret_replaceTextInRange_valid:
  "0 \<le> fst (selection (replaceTextInRange a b r ed))
   \<and> snd (selection (replaceTextInRange a b r ed))
       \<le> int (length (buffer (replaceTextInRange a b r ed)))"
  unfolding selection_replaceTextInRange buffer_replaceTextInRange by simp

lemma buffer_setSelectedRange: "buffer (setSelectedRange a b ed) = buffer ed"
  by (simp add: setSelectedRange_def)

lemma calls_setSelectedRange:
  "calls (setSelectedRange a b ed) = calls ed @ [SetSelectedRange a b]"
  by (simp add: setSelectedRange_def)

lemma selection_setSelectedRange_caret: "selection (setSelectedRange a None ed) = (a, a)"
  by (simp add: setSelectedRange_def)

text \<open>Splicing a replacement of the same length as the span it replaces.\<close>

lemma splice_same_length:
  fixes xs :: "'a list"
  assumes "a \<le> b" "b \<le> length xs" "length r = b - a"
  shows "length (take a xs @ r @ drop b xs) = length xs"
    and "take a (take a xs @ r @ drop b xs) = take a xs"
    and "drop b (take a xs @ r @ drop b xs) = drop b xs"
  using assms by auto

lemma move_up_frame:
  assumes g: "0 < start - 1" and r: "start \<le> end" "end \<le> int (length (buffer ed))"
  defines "ps \<equiv> prevStart_of (buffer ed) start"
  defines "ed' \<equiv> move_up_current_line (start, end) ed"
  shows "length (buffer ed') = length (buffer ed)"
    and "take (nat ps) (buffer ed') = take (nat ps) (buffer ed)"
    and "drop (nat end) (buffer ed') = drop (nat end) (buffer ed)"
proof -
  have b: "0 \<le> ps" "ps \<le> start - 1"
    using prevStart_of_bounds[OF g, of "buffer ed"] by (simp_all add: ps_def)
  let ?r = "getTextInRange start end ed @ newline # getTextInRange ps (start - 1) ed"
  have l1: "int (length (getTextInRange start end ed)) = end - start"
    using g r by (intro length_getTextInRange) auto
  have l2: "int (length (getTextInRange ps (start - 1) ed)) = start - 1 - ps"
    using g r b by (intro length_getTextInRange) auto
  have lr: "length ?r = nat end - nat ps"
    using l1 l2 b g r by simp
  have m: "max (nat ps) (nat end) = nat end" using b g r by simp
  have buf: "buffer ed' = take (nat ps) (buffer ed) @ ?r @ drop (nat end) (buffer ed)"
    unfolding ed'_def move_up_swap[OF g] ps_def[symmetric]
    by (simp only: buffer_setSelectedRange buffer_replaceTextInRange m)
  have le: "nat ps \<le> nat end" "nat end \<le> length (buffer ed)" using b g r by auto
  show "length (buffer ed') = length (buffer ed)"
    unfolding buf by (rule splice_same_length(1)[OF le lr])
  show "take (nat ps) (buffer ed') = take (nat ps) (buffer ed)"
    unfolding buf by (rule splice_same_length(2)[OF le lr])
  show "drop (nat end) (buffer ed') = drop (nat end) (buffer ed)"
    unfolding buf by (rule splice_same_length(3)[OF le lr])
qed

lemma move_down_frame:
  assumes g: "end + 1 < int (length (buffer ed))" and r: "0 \<le> start" "start \<le> end"
  defines "ne \<equiv> nextEnd_of (buffer ed) end"
  defines "ed' \<equiv> move_down_current_line (start, end) ed"
  shows "length (buffer ed') = length (buffer ed)"
    and "take (nat start) (buffer ed') = take (nat start) (buffer ed)"
    and "drop (nat ne) (buffer ed') = drop (nat ne) (buffer ed)"
proof -
  have b: "end + 1 \<le> ne" "ne \<le> int (length (buffer ed))"
    using nextEnd_of_bounds[of "end" "buffer ed"] g r by (simp_all add: ne_def)
  let ?r = "getTextInRange (end + 1) ne ed @ newline # getTextInRange start end ed"
  have l1: "int (length (getTextInRange start end ed)) = end - start"
    using g r by (intro length_getTextInRange) auto
  have l2: "int (length (getTextInRange (end + 1) ne ed)) = ne - (end + 1)"
    using g r b by (intro length_getTextInRange) auto
  have lr: "length ?r = nat ne - nat start"
    using l1 l2 b g r by simp
  have m: "max (nat start) (nat ne) = nat ne" using b g r by simp
  have buf: "buffer ed' = take (nat start) (buffer ed) @ ?r @ drop (nat ne) (buffer ed)"
    unfolding ed'_def move_down_swap[OF g] ne_def[symmetric]
    by (simp only: buffer_replaceTextInRange m)
  have le: "nat start \<le> nat ne" "nat ne \<le> length (buffer ed)" using b g r by auto
  show "length (buffer ed') = length (buffer ed)"
    unfolding buf by (rule splice_same_length(1)[OF le lr])
  show "take (nat start) (buffer ed') = take (nat start) (buffer ed)"
    unfolding buf by (rule splice_same_length(2)[OF le lr])
  show "drop (nat ne) (buffer ed') = drop (nat ne) (buffer ed)"
    unfolding buf by (rule splice_same_length(3)[OF le lr])
qed


section \<open>Lines and offsets\<close>

lemma join_lines_Cons: "ls \<noteq> [] \<Longrightarrow> join_lines (l # ls) = l @ newline # join_lines ls"
  by (cases ls) auto

lemma line_start_0: "line_start ls 0 = 0"
  by (cases ls) auto

lemma swap_lines_Cons:
  "swap_lines (l # ls) (Suc j) (Suc (Suc j)) = l # swap_lines ls j (Suc j)"
  by (simp add: swap_lines_def)

lemma swap_lines_nonempty: "ls \<noteq> [] \<Longrightarrow> swap_lines ls i j \<noteq> []"
  by (simp add: swap_lines_def)

lemma lines_split:
  "Suc j < length ls \<Longrightarrow>
   \<exists>P S. join_lines ls = P @ ls ! j @ newline # ls ! Suc j @ S
        \<and> join_lines (swap_lines ls j (Suc j)) = P @ ls ! Suc j @ newline # ls ! j @ S
        \<and> length P = line_start ls j
        \<and> (P = [] \<or> last P = newline)
        \<and> (S = [] \<or> hd S = newline)
        \<and> (S = [] \<longleftrightarrow> Suc (Suc j) = length ls)"
proof (induction ls arbitrary: j)
  case Nil
  then show ?case by simp
next
  case (Cons a rest)
  show ?case
  proof (cases j)
    case 0
    from Cons.prems 0 obtain b rest' where rest: "rest = b # rest'"
      by (cases rest) auto
    let ?S = "if rest' = [] then [] else newline # join_lines rest'"
    have jb: "join_lines (b # rest') = b @ ?S" "join_lines (a # rest') = a @ ?S"
      by (cases rest'; simp)+
    have "join_lines (a # rest) = [] @ a @ newline # b @ ?S"
      using jb by (simp add: rest)
    moreover have "join_lines (swap_lines (a # rest) 0 (Suc 0)) = [] @ b @ newline # a @ ?S"
      using jb by (simp add: rest swap_lines_def)
    ultimately show ?thesis
      unfolding 0 rest
      by (intro exI[of _ "[]"] exI[of _ ?S]) (simp del: join_lines.simps)
  next
    case (Suc j')
    with Cons.prems have lt: "Suc j' < length rest" by simp
    from Cons.IH[OF lt] obtain P S where
      h: "join_lines rest = P @ rest ! j' @ newline # rest ! Suc j' @ S"
         "join_lines (swap_lines rest j' (Suc j')) = P @ rest ! Suc j' @ newline # rest ! j' @ S"
         "length P = line_start rest j'"
         "P = [] \<or> last P = newline"
         "S = [] \<or> hd S = newline"
         "S = [] \<longleftrightarrow> Suc (Suc j') = length rest"
      by blast
    have ne: "rest \<noteq> []" using lt by auto
    let ?P = "a @ newline # P"
    have 1: "join_lines (a # rest) = ?P @ (a # rest) ! j @ newline # (a # rest) ! Suc j @ S"
      by (simp add: join_lines_Cons[OF ne] h(1) Suc)
    have 2: "join_lines (swap_lines (a # rest) j (Suc j))
               = ?P @ (a # rest) ! Suc j @ newline # (a # rest) ! j @ S"
      by (simp add: Suc swap_lines_Cons join_lines_Cons[OF swap_lines_nonempty[OF ne]] h(2))
    have 3: "length ?P = line_start (a # rest) j"
      by (simp add: Suc h(3))
    have 4: "?P = [] \<or> last ?P = newline"
      using h(4) by auto
    have 6: "S = [] \<longleftrightarrow> Suc (Suc j) = length (a # rest)"
      using h(6) by (simp add: Suc)
    show ?thesis
      using 1 2 3 4 h(5) 6 by blast
  qed
qed

lemma line_start_Suc:
  "Suc j < length ls \<Longrightarrow> line_start ls (Suc j) = line_start ls j + length (ls ! j) + 1"
proof (induction ls j rule: line_start.induct)
  case (1 i) then show ?case by simp
next
  case (2 l ls)
  then show ?case by (cases ls) auto
next
  case (3 l ls i)
  then show ?case by simp
qed


lemma line_start_swap:
  "Suc j < length ls \<Longrightarrow> line_start (swap_lines ls j (Suc j)) j = line_start ls j"
proof (induction ls arbitrary: j)
  case Nil
  then show ?case by simp
next
  case (Cons a rest)
  show ?case
  proof (cases j)
    case 0
    then show ?thesis by (simp add: line_start_0)
  next
    case (Suc j')
    with Cons.prems have "Suc j' < length rest" by simp
    from Cons.IH[OF this] show ?thesis
      by (simp add: Suc swap_lines_Cons)
  qed
qed

text \<open>The shape of a buffer around two neighbouring lines, with the offsets of both.\<close>

lemma lines_around:
  assumes i: "0 < i" "i < length ls"
  obtains P S where
    "join_lines ls = P @ ls ! (i - 1) @ newline # ls ! i @ S"
    "join_lines (swap_lines ls (i - 1) i) = P @ ls ! i @ newline # ls ! (i - 1) @ S"
    "line_start ls (i - 1) = length P"
    "line_range ls i = (int (length P + length (ls ! (i - 1)) + 1),
                        int (length P + length (ls ! (i - 1)) + 1 + length (ls ! i)))"
    "P = [] \<or> last P = newline" "S = [] \<or> hd S = newline"
    "S = [] \<longleftrightarrow> Suc i = length ls"
proof -
  obtain j where j: "i = Suc j" using i by (cases i) auto
  with i have lt: "Suc j < length ls" by simp
  from lines_split[OF lt] obtain P S where
    h: "join_lines ls = P @ ls ! j @ newline # ls ! Suc j @ S"
       "join_lines (swap_lines ls j (Suc j)) = P @ ls ! Suc j @ newline # ls ! j @ S"
       "length P = line_start ls j"
       "P = [] \<or> last P = newline" "S = [] \<or> hd S = newline"
       "S = [] \<longleftrightarrow> Suc (Suc j) = length ls"
    by blast
  have "line_start ls i = length P + length (ls ! j) + 1"
    using line_start_Suc[OF lt] h(3) j by simp
  then have "line_range ls i = (int (length P + length (ls ! (i - 1)) + 1),
                        int (length P + length (ls ! (i - 1)) + 1 + length (ls ! i)))"
    by (simp add: line_range_def j)
  with h show thesis
    using that[of P S] by (simp add: j)
qed


section \<open>Swapping two neighbouring lines\<close>

lemma getTextInRange_middle:
  "buffer ed = A @ m @ B \<Longrightarrow>
     getTextInRange (int (length A)) (int (length A + length m)) ed = m"
  by (simp add: getTextInRange_def)

lemma replaceTextInRange_middle:
  "buffer ed = A @ m @ B \<Longrightarrow>
     replaceTextInRange (int (length A)) (int (length A + length m)) r ed
       = ed\<lparr>buffer := A @ r @ B,
            selection := (int (length A + length r), int (length A + length r)),
            calls := calls ed @
              [ReplaceTextInRange (int (length A)) (int (length A + length m)) r]\<rparr>"
  by (simp add: replaceTextInRange_def Let_def del: of_nat_add)

lemma prevStart_of_split:
  assumes nl: "newline \<notin> set p" and P: "P = [] \<or> last P = newline"
    and pos: "0 < length P + length p"
  shows "prevStart_of (P @ p @ R) (int (length P + length p + 1)) = int (length P)"
proof -
  let ?s = "P @ p @ R"
  let ?k = "length P + length p - 1"
  have k: "min (nat (int (length P + length p + 1) - 1 - 1)) (length ?s - 1) = ?k"
    using pos by auto
  have inp: "?s ! j \<noteq> newline" if "length P \<le> j" "j \<le> ?k" for j
  proof -
    have "j - length P < length p" using that pos by linarith
    then have "?s ! j = p ! (j - length P)" "p ! (j - length P) \<in> set p"
      using that by (auto simp: nth_append)
    with nl show ?thesis by metis
  qed
  show ?thesis
  proof (cases "P = []")
    case True
    have "lastIndexOf_scan ?s newline ?k = - 1"
      by (rule lastIndexOf_scan_none) (use inp True in auto)
    then show ?thesis
      unfolding prevStart_of_def lastIndexOf_def k by (simp add: True)
  next
    case False
    with P have lastP: "last P = newline" by simp
    have m: "?s ! (length P - 1) = newline"
      using False lastP by (simp add: nth_append last_conv_nth)
    have "lastIndexOf_scan ?s newline ?k = int (length P - 1)"
    proof (rule lastIndexOf_scan_found)
      show "length P - 1 \<le> ?k" by simp
      show "length P - 1 < length ?s" using False by (cases P) simp_all
      show "?s ! (length P - 1) = newline" by (rule m)
      show "?s ! j \<noteq> newline" if "length P - 1 < j" "j \<le> ?k" "j < length ?s" for j
        using inp[of j] that by simp
    qed
    moreover have "int (length P - 1) + 1 = int (length P)"
      using False by (cases P) simp_all
    ultimately show ?thesis
      unfolding prevStart_of_def lastIndexOf_def k by (simp add: Let_def)
  qed
qed

lemma nextEnd_of_split:
  assumes nl: "newline \<notin> set n" and S: "S = [] \<or> hd S = newline"
  shows "nextEnd_of (A @ n @ S) (int (length A) - 1) = int (length A + length n)"
proof -
  let ?s = "A @ n @ S"
  have k: "min (nat (int (length A) - 1 + 1)) (length ?s) = length A" by simp
  have d: "drop (length A) ?s = n @ S" by simp
  show ?thesis
  proof (cases S)
    case Nil
    have "indexOf_scan newline (n @ S) (length A) = - 1"
      using nl Nil by (simp add: indexOf_scan_none)
    then show ?thesis
      unfolding nextEnd_of_def indexOf_def k d by (simp add: Nil)
  next
    case (Cons x S')
    with S have "S = newline # S'" by simp
    then have "indexOf_scan newline (n @ S) (length A) = int (length A + length n)"
      using nl by (simp add: indexOf_scan_found)
    then show ?thesis
      unfolding nextEnd_of_def indexOf_def k d by (simp add: Let_def)
  qed
qed

lemma move_up_on_split:
  assumes buf: "buffer ed = P @ p @ newline # c @ S"
    and nl: "newline \<notin> set p" and P: "P = [] \<or> last P = newline"
    and pos: "0 < length P + length p"
  shows "move_up_current_line
           (int (length P + length p + 1), int (length P + length p + 1 + length c)) ed
         = ed\<lparr>buffer := P @ c @ newline # p @ S,
              selection := (int (length P), int (length P)),
              calls := calls ed @
                [ReplaceTextInRange (int (length P)) (int (length P + length p + 1 + length c))
                   (c @ newline # p),
                 SetSelectedRange (int (length P)) None]\<rparr>"
proof -
  let ?start = "int (length P + length p + 1)"
  let ?end = "int (length P + length p + 1 + length c)"
  have g: "0 < ?start - 1" using pos by linarith
  have ps: "prevStart_of (buffer ed) ?start = int (length P)"
    unfolding buf by (rule prevStart_of_split[OF nl P pos])
  have cur: "getTextInRange ?start ?end ed = c"
    using getTextInRange_middle[of ed "P @ p @ [newline]" c S] buf by simp
  have prev: "getTextInRange (int (length P)) (?start - 1) ed = p"
    using getTextInRange_middle[of ed P p "newline # c @ S"] buf by simp
  have e: "?end = int (length P + length (p @ newline # c))" by simp
  have rep: "replaceTextInRange (int (length P)) ?end (c @ newline # p) ed
       = ed\<lparr>buffer := P @ (c @ newline # p) @ S,
            selection := (int (length P + length (c @ newline # p)),
                          int (length P + length (c @ newline # p))),
            calls := calls ed @
              [ReplaceTextInRange (int (length P)) ?end (c @ newline # p)]\<rparr>"
    unfolding e by (rule replaceTextInRange_middle) (simp add: buf)
  show ?thesis
    unfolding move_up_swap[OF g] ps cur prev rep
    by (simp add: setSelectedRange_def)
qed

lemma move_down_on_split:
  assumes buf: "buffer ed = P @ c @ newline # n @ S"
    and nl: "newline \<notin> set n" and S: "S = [] \<or> hd S = newline"
    and pos: "0 < length n + length S"
  shows "move_down_current_line (int (length P), int (length P + length c)) ed
         = ed\<lparr>buffer := P @ n @ newline # c @ S,
              selection := (int (length P + length n + 1 + length c),
                            int (length P + length n + 1 + length c)),
              calls := calls ed @
                [ReplaceTextInRange (int (length P)) (int (length P + length c + 1 + length n))
                   (n @ newline # c)]\<rparr>"
proof -
  let ?start = "int (length P)"
  let ?end = "int (length P + length c)"
  let ?A = "P @ c @ [newline]"
  have "length (buffer ed) = length P + length c + 1 + length n + length S"
    by (simp add: buf)
  then have g: "?end + 1 < int (length (buffer ed))" using pos by linarith
  have "nextEnd_of (?A @ n @ S) (int (length ?A) - 1) = int (length ?A + length n)"
    by (rule nextEnd_of_split[OF nl S])
  then have ne: "nextEnd_of (buffer ed) ?end = int (length P + length c + 1 + length n)"
    by (simp add: buf)
  have cur: "getTextInRange ?start ?end ed = c"
    using getTextInRange_middle[of ed P c "newline # n @ S"] buf by simp
  have nxt: "getTextInRange (?end + 1) (int (length P + length c + 1 + length n)) ed = n"
    using getTextInRange_middle[of ed ?A n S] buf by (simp add: add.commute)
  have e: "int (length P + length c + 1 + length n)
             = int (length P + length (c @ newline # n))" by simp
  have rep: "replaceTextInRange ?start (int (length P + length c + 1 + length n))
               (n @ newline # c) ed
       = ed\<lparr>buffer := P @ (n @ newline # c) @ S,
            selection := (int (length P + length (n @ newline # c)),
                          int (length P + length (n @ newline # c))),
            calls := calls ed @
              [ReplaceTextInRange ?start (int (length P + length c + 1 + length n))
                 (n @ newline # c)]\<rparr>"
    unfolding e by (rule replaceTextInRange_middle) (simp add: buf)
  show ?thesis
    unfolding move_down_swap[OF g] ne cur nxt rep
    by simp
qed

section \<open>The claims of the specification\<close>

text \<open>
  Claim C1, as it is written, fails where the first line is empty and the second line is
  selected: the buffer is a newline followed by \<open>b\<close>, the selected line range is
  \<open>[1, 2)\<close>, \<open>prevEnd\<close> is \<open>0\<close>, the guard \<open>prevEnd > 0\<close> is false and the
  buffer stays as it is, although lines 0 and 1 differ.
\<close>

theorem empty_first_line_not_swapped:
  "buffer (move_up_current_line (line_range [[], ''b''] 1)
       \<lparr>buffer = join_lines [[], ''b''], selection = (1, 1), calls = []\<rparr>)
     \<noteq> join_lines (swap_lines [[], ''b''] 0 1)"
  by (simp add: line_range_def swap_lines_def move_up_current_line_def)

text \<open>
  Claim C1 (amended): for every buffer with at least two lines whose selected line range
  is line \<open>i\<close> with \<open>i > 0\<close> and starts at offset 2 or later (that is, unless
  \<open>i = 1\<close> and the first line is empty), \<open>Move Up Current Line\<close> produces the
  buffer with lines \<open>i - 1\<close> and \<open>i\<close> swapped, the length of the buffer is
  preserved, and the caret afterwards is at the start offset of the relocated line, which
  is the start offset the previous line had.
\<close>

theorem move_up_swaps_lines:
  assumes lines: "\<forall>l\<in>set ls. newline \<notin> set l"
    and i: "0 < i" "i < length ls"
    and buf: "buffer ed = join_lines ls"
    and guard: "2 \<le> line_start ls i"
  shows "buffer (move_up_current_line (line_range ls i) ed) = join_lines (swap_lines ls (i - 1) i)
       \<and> length (buffer (move_up_current_line (line_range ls i) ed)) = length (buffer ed)
       \<and> selection (move_up_current_line (line_range ls i) ed)
           = (int (line_start ls (i - 1)), int (line_start ls (i - 1)))
       \<and> line_start (swap_lines ls (i - 1) i) (i - 1) = line_start ls (i - 1)"
proof -
  from lines_around[OF i] obtain P S where
    h: "join_lines ls = P @ ls ! (i - 1) @ newline # ls ! i @ S"
       "join_lines (swap_lines ls (i - 1) i) = P @ ls ! i @ newline # ls ! (i - 1) @ S"
       "line_start ls (i - 1) = length P"
       "line_range ls i = (int (length P + length (ls ! (i - 1)) + 1),
                        int (length P + length (ls ! (i - 1)) + 1 + length (ls ! i)))"
       "P = [] \<or> last P = newline" 
    by blast
  have nl: "newline \<notin> set (ls ! (i - 1))" using lines i by simp
  have "int (line_start ls i) = int (length P + length (ls ! (i - 1)) + 1)"
    using h(4) by (simp add: line_range_def)
  with guard have pos: "0 < length P + length (ls ! (i - 1))" by linarith
  have b: "buffer ed = P @ ls ! (i - 1) @ newline # ls ! i @ S"
    using buf h(1) by simp
  note up = move_up_on_split[OF b nl h(5) pos, folded h(4)]
  have 1: "buffer (move_up_current_line (line_range ls i) ed)
             = join_lines (swap_lines ls (i - 1) i)"
    unfolding up h(2) by simp
  have 2: "length (buffer (move_up_current_line (line_range ls i) ed)) = length (buffer ed)"
    unfolding up b by simp
  have 3: "selection (move_up_current_line (line_range ls i) ed)
             = (int (line_start ls (i - 1)), int (line_start ls (i - 1)))"
    unfolding up h(3) by simp
  have 4: "line_start (swap_lines ls (i - 1) i) (i - 1) = line_start ls (i - 1)"
    using line_start_swap[of "i - 1" ls] i by simp
  from 1 2 3 4 show ?thesis by blast
qed

text \<open>
  The example of the specification: in the buffer with the lines \<open>a\<close>, \<open>b\<close> and \<open>c\<close>,
  with \<open>b\<close> selected (offsets 2 to 3), moving up gives the lines \<open>b\<close>, \<open>a\<close>, \<open>c\<close> and
  the caret at offset 0.
\<close>

theorem move_up_swaps_lines_witness:
  "buffer (move_up_current_line (line_range [''a'', ''b'', ''c''] 1)
       \<lparr>buffer = join_lines [''a'', ''b'', ''c''], selection = (2, 2), calls = []\<rparr>)
     = join_lines [''b'', ''a'', ''c'']
   \<and> selection (move_up_current_line (line_range [''a'', ''b'', ''c''] 1)
       \<lparr>buffer = join_lines [''a'', ''b'', ''c''], selection = (2, 2), calls = []\<rparr>)
     = (0, 0)"
  using move_up_swaps_lines
    [of "[''a'', ''b'', ''c'']" 1
        "\<lparr>buffer = join_lines [''a'', ''b'', ''c''], selection = (2, 2), calls = []\<rparr>"]
  by (simp add: swap_lines_def)

text \<open>
  Claim C2: when the selected line is the first line of the buffer, so that
  \<open>prevEnd = start - 1 \<le> 0\<close>, \<open>Move Up Current Line\<close> does nothing. The state after
  the script is the state before it: the same buffer, the same selection and no call
  added to the recorded calls. The script has no statement that throws, and its model
  has no error result.
\<close>

theorem move_up_first_line_noop:
  assumes "start - 1 \<le> 0"
  shows "move_up_current_line (start, end) ed = ed"
  using assms by (rule move_up_noop)

theorem move_up_first_line_noop_witness:
  "(0::int) - 1 \<le> 0 \<and>
   move_up_current_line (0, 1) \<lparr>buffer = join_lines [''a'', ''b''], selection = (0, 0), calls = []\<rparr>
     = \<lparr>buffer = join_lines [''a'', ''b''], selection = (0, 0), calls = []\<rparr>"
  using move_up_first_line_noop
    [of 0 1 "\<lparr>buffer = join_lines [''a'', ''b''], selection = (0, 0), calls = []\<rparr>"]
  by simp

text \<open>
  Claim C3: when the selected line is the last line of the buffer, so that
  \<open>nextStart = end + 1 \<ge> bufferLength\<close>, \<open>Move Down Current Line\<close> does nothing:
  the state after the script is the state before it, with no call added.
\<close>

theorem move_down_last_line_noop:
  assumes "int (length (buffer ed)) \<le> end + 1"
  shows "move_down_current_line (start, end) ed = ed"
  using assms by (rule move_down_noop)

theorem move_down_last_line_noop_witness:
  "int (length (join_lines [''a'', ''b''])) \<le> 3 + 1 \<and>
   move_down_current_line (2, 3)
       \<lparr>buffer = join_lines [''a'', ''b''], selection = (2, 2), calls = []\<rparr>
     = \<lparr>buffer = join_lines [''a'', ''b''], selection = (2, 2), calls = []\<rparr>"
  using move_down_last_line_noop
    [of "\<lparr>buffer = join_lines [''a'', ''b''], selection = (2, 2), calls = []\<rparr>" 3 2]
  by simp

text \<open>
  Claim C4, as it is written, fails where the line above is empty and the selected line is
  the last one: in the buffer with the lines \<open>a\<close>, the empty line and \<open>b\<close>, moving
  \<open>b\<close> up swaps it with the empty line, which is then an empty last line; moving \<open>b\<close>
  down afterwards meets \<open>nextStart = bufferLength\<close> and does nothing.
\<close>

theorem up_then_down_loses_empty_line:
  "buffer (move_up_current_line (line_range [''a'', [], ''b''] 2)
       \<lparr>buffer = join_lines [''a'', [], ''b''], selection = (3, 3), calls = []\<rparr>)
     = join_lines [''a'', ''b'', []]
   \<and> buffer (up_then_down (line_range [''a'', [], ''b''] 2)
       \<lparr>buffer = join_lines [''a'', [], ''b''], selection = (3, 3), calls = []\<rparr>)
     \<noteq> join_lines [''a'', [], ''b'']"
  by (simp add: line_range_def up_then_down_def move_up_current_line_def
      move_down_current_line_def getText_def getTextInRange_def lastIndexOf_def
      replaceTextInRange_def setSelectedRange_def Let_def numeral_2_eq_2)

text \<open>
  Claim C4 (amended): for every buffer and selected line on which
  \<open>Move Up Current Line\<close> performs a swap, unless the line above is empty while the
  selected line is the last line of the buffer and is not empty,
  \<open>Move Down Current Line\<close> run immediately afterwards on the relocated line gives
  back the content of the original buffer.
\<close>

theorem up_then_down_restores:
  assumes lines: "\<forall>l\<in>set ls. newline \<notin> set l"
    and i: "0 < i" "i < length ls"
    and buf: "buffer ed = join_lines ls"
    and guard: "2 \<le> line_start ls i"
    and room: "ls ! (i - 1) \<noteq> [] \<or> Suc i < length ls \<or> ls ! i = []"
  shows "buffer (up_then_down (line_range ls i) ed) = buffer ed"
proof -
  from lines_around[OF i] obtain P S where
    h: "join_lines ls = P @ ls ! (i - 1) @ newline # ls ! i @ S"
       "line_range ls i = (int (length P + length (ls ! (i - 1)) + 1),
                        int (length P + length (ls ! (i - 1)) + 1 + length (ls ! i)))"
       "P = [] \<or> last P = newline" "S = [] \<or> hd S = newline"
       "S = [] \<longleftrightarrow> Suc i = length ls"
    by blast
  let ?p = "ls ! (i - 1)" and ?c = "ls ! i"
  have nl: "newline \<notin> set ?p" using lines i by simp
  have "int (line_start ls i) = int (length P + length ?p + 1)"
    using h(2) by (simp add: line_range_def)
  with guard have pos: "0 < length P + length ?p" by linarith
  have b: "buffer ed = P @ ?p @ newline # ?c @ S"
    using buf h(1) by simp
  note up = move_up_on_split[OF b nl h(3) pos, folded h(2)]
  define ed1 where "ed1 = move_up_current_line (line_range ls i) ed"
  have b1: "buffer ed1 = P @ ?c @ newline # ?p @ S"
    and s1: "fst (selection ed1) = int (length P)"
    unfolding ed1_def up by simp_all
  have w: "snd (line_range ls i) - fst (line_range ls i) = int (length ?c)"
    unfolding h(2) by simp
  have run: "up_then_down (line_range ls i) ed
      = move_down_current_line (int (length P), int (length P + length ?c)) ed1"
    unfolding up_then_down_def Let_def ed1_def[symmetric] s1 w by simp
  show ?thesis
  proof (cases "0 < length ?p + length S")
    case True
    show ?thesis
      unfolding run move_down_on_split[OF b1 nl h(4) True] b by simp
  next
    case False
    from False have "length ?p = 0 \<and> length S = 0" by linarith
    then have e: "?p = []" "S = []" by blast+
    with room h(5) i have c: "?c = []" by auto
    have "int (length (buffer ed1)) \<le> int (length P + length ?c) + 1"
      unfolding b1 using e c by simp
    then have noop: "move_down_current_line (int (length P), int (length P + length ?c)) ed1
                 = ed1"
      by (rule move_down_noop)
    have same: "buffer ed1 = buffer ed"
      unfolding b b1 using e c by simp
    show ?thesis
      unfolding run noop by (rule same)
  qed
qed

theorem up_then_down_restores_witness:
  "buffer (up_then_down (line_range [''a'', ''b'', ''c''] 1)
       \<lparr>buffer = join_lines [''a'', ''b'', ''c''], selection = (2, 2), calls = []\<rparr>)
     = join_lines [''a'', ''b'', ''c'']"
  using up_then_down_restores
    [of "[''a'', ''b'', ''c'']" 1
        "\<lparr>buffer = join_lines [''a'', ''b'', ''c''], selection = (2, 2), calls = []\<rparr>"]
  by simp

text \<open>
  Claim C5 at a concrete input: the buffer has the lines \<open>a\<close>, \<open>bc\<close> and \<open>d\<close>, and
  the line range \<open>[2, 5)\<close> spans \<open>bc\<close> with the newline that ends it. The claim asks for
  a selection that ends one character earlier; the script selects \<open>(2, 5)\<close>, the range
  it was given.
\<close>

theorem trim_keeps_trailing_newline:
  "getTextInRange 2 5
       \<lparr>buffer = join_lines [''a'', ''bc'', ''d''], selection = (3, 3), calls = []\<rparr>
     = ''bc'' @ [newline]
   \<and> selection (trim_line_selection (2, 5)
       \<lparr>buffer = join_lines [''a'', ''bc'', ''d''], selection = (3, 3), calls = []\<rparr>)
     = (2, 5)"
  by (simp add: getTextInRange_def trim_line_selection_def setSelectedRange_def Let_def)

text \<open>
  Claim C6: for a line range inside the buffer, whenever \<open>Move Up Current Line\<close> or
  \<open>Move Down Current Line\<close> runs its guarded replacement, the buffer afterwards has
  the length it had before, and the selection afterwards lies between 0 and the new
  length: after moving up it is the caret the script sets, after moving down it is the
  caret the replacement leaves.
\<close>

theorem transposition_preserves_length:
  assumes "0 \<le> start" "start \<le> end" "end \<le> int (length (buffer ed))"
  shows "(0 < start - 1 \<longrightarrow>
            length (buffer (move_up_current_line (start, end) ed)) = length (buffer ed)
          \<and> 0 \<le> fst (selection (move_up_current_line (start, end) ed))
          \<and> snd (selection (move_up_current_line (start, end) ed))
               \<le> int (length (buffer (move_up_current_line (start, end) ed))))
       \<and> (end + 1 < int (length (buffer ed)) \<longrightarrow>
            length (buffer (move_down_current_line (start, end) ed)) = length (buffer ed)
          \<and> 0 \<le> fst (selection (move_down_current_line (start, end) ed))
          \<and> snd (selection (move_down_current_line (start, end) ed))
               \<le> int (length (buffer (move_down_current_line (start, end) ed))))"
proof (intro conjI impI)
  assume g: "0 < start - 1"
  show "length (buffer (move_up_current_line (start, end) ed)) = length (buffer ed)"
    by (rule move_up_frame(1)[OF g assms(2,3)])
  have s: "selection (move_up_current_line (start, end) ed)
             = (prevStart_of (buffer ed) start, prevStart_of (buffer ed) start)"
    unfolding move_up_swap[OF g] by (rule selection_setSelectedRange_caret)
  have b: "0 \<le> prevStart_of (buffer ed) start"
    "prevStart_of (buffer ed) start \<le> int (length (buffer ed))"
    using prevStart_of_bounds[OF g, of "buffer ed"] by simp_all
  show "0 \<le> fst (selection (move_up_current_line (start, end) ed))"
    unfolding s using b by simp
  show "snd (selection (move_up_current_line (start, end) ed))
          \<le> int (length (buffer (move_up_current_line (start, end) ed)))"
    unfolding s move_up_frame(1)[OF g assms(2,3)] using b by simp
next
  assume g: "end + 1 < int (length (buffer ed))"
  show "length (buffer (move_down_current_line (start, end) ed)) = length (buffer ed)"
    by (rule move_down_frame(1)[OF g assms(1,2)])
  show "0 \<le> fst (selection (move_down_current_line (start, end) ed))"
    unfolding move_down_swap[OF g] by (rule caret_replaceTextInRange_valid[THEN conjunct1])
  show "snd (selection (move_down_current_line (start, end) ed))
          \<le> int (length (buffer (move_down_current_line (start, end) ed)))"
    unfolding move_down_swap[OF g] by (rule caret_replaceTextInRange_valid[THEN conjunct2])
qed

theorem transposition_preserves_length_witness:
  "length (buffer (move_up_current_line (2, 3)
       \<lparr>buffer = join_lines [''a'', ''b'', ''c''], selection = (2, 2), calls = []\<rparr>)) = 5
   \<and> length (buffer (move_down_current_line (2, 3)
       \<lparr>buffer = join_lines [''a'', ''b'', ''c''], selection = (2, 2), calls = []\<rparr>)) = 5
   \<and> snd (selection (move_down_current_line (2, 3)
       \<lparr>buffer = join_lines [''a'', ''b'', ''c''], selection = (2, 2), calls = []\<rparr>)) \<le> 5"
  using transposition_preserves_length
    [of 2 3 "\<lparr>buffer = join_lines [''a'', ''b'', ''c''], selection = (2, 2), calls = []\<rparr>"]
  by simp

text \<open>
  Claim C7: in its mutation branch \<open>Move Up Current Line\<close> issues exactly two calls:
  one \<open>replaceTextInRange\<close> of the span \<open>[prevStart, end)\<close> with the current line, one
  newline and the previous line, then one \<open>setSelectedRange\<close> with the single argument
  \<open>prevStart\<close>, which leaves the selection collapsed at \<open>prevStart\<close>. The buffer before
  \<open>prevStart\<close> and from \<open>end\<close> on is unchanged. The script is a sequence of statements
  and yields no value; its model returns the editor state only.
\<close>

theorem move_up_single_mutation:
  assumes "0 < start - 1" "start \<le> end" "end \<le> int (length (buffer ed))"
  shows "calls (move_up_current_line (start, end) ed)
           = calls ed @
             [ReplaceTextInRange (prevStart_of (buffer ed) start) end
                (getTextInRange start end ed @ newline #
                   getTextInRange (prevStart_of (buffer ed) start) (start - 1) ed),
              SetSelectedRange (prevStart_of (buffer ed) start) None]
       \<and> selection (move_up_current_line (start, end) ed)
           = (prevStart_of (buffer ed) start, prevStart_of (buffer ed) start)
       \<and> buffer (move_up_current_line (start, end) ed)
           = take (nat (prevStart_of (buffer ed) start)) (buffer ed)
             @ (getTextInRange start end ed @ newline #
                   getTextInRange (prevStart_of (buffer ed) start) (start - 1) ed)
             @ drop (nat end) (buffer ed)
       \<and> length (buffer (move_up_current_line (start, end) ed)) = length (buffer ed)
       \<and> take (nat (prevStart_of (buffer ed) start)) (buffer (move_up_current_line (start, end) ed))
           = take (nat (prevStart_of (buffer ed) start)) (buffer ed)
       \<and> drop (nat end) (buffer (move_up_current_line (start, end) ed))
           = drop (nat end) (buffer ed)"
proof -
  let ?ps = "prevStart_of (buffer ed) start"
  have b: "?ps \<le> start - 1"
    using prevStart_of_bounds[OF assms(1), of "buffer ed"] by simp
  have m: "max (nat ?ps) (nat end) = nat end" using b assms by simp
  have 1: "calls (move_up_current_line (start, end) ed)
           = calls ed @
             [ReplaceTextInRange ?ps end
                (getTextInRange start end ed @ newline # getTextInRange ?ps (start - 1) ed),
              SetSelectedRange ?ps None]"
    unfolding move_up_swap[OF assms(1)]
    by (simp add: calls_setSelectedRange calls_replaceTextInRange)
  have 2: "selection (move_up_current_line (start, end) ed) = (?ps, ?ps)"
    unfolding move_up_swap[OF assms(1)] by (rule selection_setSelectedRange_caret)
  have 3: "buffer (move_up_current_line (start, end) ed)
           = take (nat ?ps) (buffer ed)
             @ (getTextInRange start end ed @ newline # getTextInRange ?ps (start - 1) ed)
             @ drop (nat end) (buffer ed)"
    unfolding move_up_swap[OF assms(1)]
    by (simp only: buffer_setSelectedRange buffer_replaceTextInRange m)
  note f = move_up_frame[OF assms]
  from 1 2 3 f show ?thesis by blast
qed

theorem move_up_single_mutation_witness:
  "move_up_current_line (2, 3)
       \<lparr>buffer = join_lines [''a'', ''b'', ''c''], selection = (2, 2), calls = []\<rparr>
     = \<lparr>buffer = join_lines [''b'', ''a'', ''c''], selection = (0, 0),
        calls = [ReplaceTextInRange 0 3 (join_lines [''b'', ''a'']), SetSelectedRange 0 None]\<rparr>"
proof -
  let ?ed = "\<lparr>buffer = join_lines [''a'', ''b'', ''c''], selection = (2, 2), calls = []\<rparr>"
  have ps: "prevStart_of (buffer ?ed) 2 = 0"
    by (simp add: prevStart_of_def lastIndexOf_def)
  have h: "(0::int) < 2 - 1" "(2::int) \<le> 3" "3 \<le> int (length (buffer ?ed))"
    by simp_all
  from move_up_single_mutation[OF h] show ?thesis
    unfolding ps by (intro editor.equality) (simp_all add: getTextInRange_def)
qed

text \<open>
  Claim C8: in its mutation branch \<open>Move Down Current Line\<close> issues exactly one call, a
  \<open>replaceTextInRange\<close> of the span \<open>[start, nextEnd)\<close> with the next line, one newline
  and the current line. The buffer before \<open>start\<close> and from \<open>nextEnd\<close> on is unchanged,
  and the script issues no selection update: the state it leaves is the state that single
  call leaves.
\<close>

theorem move_down_single_mutation:
  assumes "end + 1 < int (length (buffer ed))" "0 \<le> start" "start \<le> end"
  shows "calls (move_down_current_line (start, end) ed)
           = calls ed @
             [ReplaceTextInRange start (nextEnd_of (buffer ed) end)
                (getTextInRange (end + 1) (nextEnd_of (buffer ed) end) ed @ newline #
                   getTextInRange start end ed)]
       \<and> move_down_current_line (start, end) ed
           = replaceTextInRange start (nextEnd_of (buffer ed) end)
               (getTextInRange (end + 1) (nextEnd_of (buffer ed) end) ed @ newline #
                  getTextInRange start end ed) ed
       \<and> buffer (move_down_current_line (start, end) ed)
           = take (nat start) (buffer ed)
             @ (getTextInRange (end + 1) (nextEnd_of (buffer ed) end) ed @ newline #
                   getTextInRange start end ed)
             @ drop (nat (nextEnd_of (buffer ed) end)) (buffer ed)
       \<and> length (buffer (move_down_current_line (start, end) ed)) = length (buffer ed)
       \<and> take (nat start) (buffer (move_down_current_line (start, end) ed))
           = take (nat start) (buffer ed)
       \<and> drop (nat (nextEnd_of (buffer ed) end)) (buffer (move_down_current_line (start, end) ed))
           = drop (nat (nextEnd_of (buffer ed) end)) (buffer ed)"
proof -
  let ?ne = "nextEnd_of (buffer ed) end"
  have b: "end + 1 \<le> ?ne"
    using nextEnd_of_bounds[of "end" "buffer ed"] assms by simp
  have m: "max (nat start) (nat ?ne) = nat ?ne" using b assms by simp
  have 1: "calls (move_down_current_line (start, end) ed)
           = calls ed @
             [ReplaceTextInRange start ?ne
                (getTextInRange (end + 1) ?ne ed @ newline # getTextInRange start end ed)]"
    unfolding move_down_swap[OF assms(1)] by (rule calls_replaceTextInRange)
  have 2: "move_down_current_line (start, end) ed
           = replaceTextInRange start ?ne
               (getTextInRange (end + 1) ?ne ed @ newline # getTextInRange start end ed) ed"
    by (rule move_down_swap[OF assms(1)])
  have 3: "buffer (move_down_current_line (start, end) ed)
           = take (nat start) (buffer ed)
             @ (getTextInRange (end + 1) ?ne ed @ newline # getTextInRange start end ed)
             @ drop (nat ?ne) (buffer ed)"
    unfolding move_down_swap[OF assms(1)]
    by (simp only: buffer_replaceTextInRange m)
  note f = move_down_frame[OF assms]
  from 1 2 3 f show ?thesis by blast
qed

theorem move_down_single_mutation_witness:
  "move_down_current_line (2, 3)
       \<lparr>buffer = join_lines [''a'', ''b'', ''c''], selection = (2, 2), calls = []\<rparr>
     = \<lparr>buffer = join_lines [''a'', ''c'', ''b''], selection = (5, 5),
        calls = [ReplaceTextInRange 2 5 (join_lines [''c'', ''b''])]\<rparr>"
proof -
  let ?ed = "\<lparr>buffer = join_lines [''a'', ''b'', ''c''], selection = (2, 2), calls = []\<rparr>"
  have ne: "nextEnd_of (buffer ?ed) 3 = 5"
    by (simp add: nextEnd_of_def indexOf_def)
  have h: "(3::int) + 1 < int (length (buffer ?ed))" "(0::int) \<le> 2" "(2::int) \<le> 3"
    by simp_all
  from move_down_single_mutation[OF h]
  have "move_down_current_line (2, 3) ?ed
          = replaceTextInRange 2 5 (join_lines [''c'', ''b'']) ?ed"
    unfolding ne by (simp add: getTextInRange_def)
  then show ?thesis
    by (simp add: replaceTextInRange_def Let_def)
qed



text \<open>
  Claim C10: with both arguments of \<open>getTextInRange\<close> read as absolute positions, the
  guard of the trim script reads the range \<open>[eol - 1, 1)\<close> with \<open>eol = start + end\<close>.
  For \<open>start + end \<ge> 2\<close> that range is empty, so \<open>eol\<close> is never decremented and the
  script does what the single call \<open>setSelectedRange(start, end)\<close> does.
\<close>

theorem trim_never_trims:
  assumes "2 \<le> start + end"
  shows "getTextInRange (start + end - 1) 1 ed = []
       \<and> trim_line_selection (start, end) ed = setSelectedRange start (Some end) ed"
proof -
  have e: "getTextInRange (start + end - 1) 1 ed = []"
    using assms by (simp add: getTextInRange_def)
  then show ?thesis
    by (simp add: trim_line_selection_def Let_def)
qed

theorem trim_never_trims_witness:
  "(2::int) \<le> 2 + 5 \<and>
   trim_line_selection (2, 5)
       \<lparr>buffer = join_lines [''a'', ''bc'', ''d''], selection = (3, 3), calls = []\<rparr>
     = setSelectedRange 2 (Some 5)
         \<lparr>buffer = join_lines [''a'', ''bc'', ''d''], selection = (3, 3), calls = []\<rparr>"
  using trim_never_trims
    [of 2 5 "\<lparr>buffer = join_lines [''a'', ''bc'', ''d''], selection = (3, 3), calls = []\<rparr>"]
  by simp

end
